theory Spec2Isabelle
  imports Main "HOL-Library.AList" "HOL-Library.Multiset"
begin

section \<open>Data model of the waitlist view\<close>

text \<open>
  The types of \<^verbatim>\<open>src/app/waitlist/page.tsx\<close> (and of the route handler, which
  repeats them inline). A nullable string is a \<open>string option\<close>. The selected relation
  \<^verbatim>\<open>events (...)\<close> of a joined row comes back as an array, as one object, or as null.
\<close>

record WaitlistEntry =
  id_w :: string
  email :: string
  referral :: "string option"
  position :: int
  created_at :: string

record EventDetails =
  id_e :: "string option"
  name_e :: "string option"
  capacity :: int
  reserved :: "int option"
  start_time_date :: "string option"
  venue :: "string option"

record EventGroup =
  event :: EventDetails
  waitlist :: "WaitlistEntry list"
  totalCount :: nat

datatype events_relation =
    EventsArray "EventDetails list"
  | EventsObject EventDetails
  | EventsNull

record joined_row = WaitlistEntry +
  event_id :: "string option"
  events :: events_relation

text \<open>JavaScript truthiness of a nullable string: null and the empty string are falsy.\<close>

fun truthy :: "string option \<Rightarrow> bool" where
  "truthy None = False"
| "truthy (Some s) = (s \<noteq> [])"

section \<open>The object \<^verbatim>\<open>groupedByEvent\<close>\<close>

text \<open>
  \<^verbatim>\<open>const groupedByEvent: Record<string, EventGroup> = {}\<close> is an ordinary object.
  Its own properties are kept as an association list in creation order. Three facts of
  the language are part of the model:
  \<^item> assigning to an existing key replaces the value in place, assigning to a new key
    appends (\<open>AList.update\<close> does exactly this);
  \<^item> reading a key that is not an own property falls through to \<^verbatim>\<open>Object.prototype\<close>,
    whose properties are truthy and are not groups;
  \<^item> \<^verbatim>\<open>Object.values\<close> lists the keys that are array indices first, in ascending numeric
    order, and then the other keys in creation order.
\<close>

type_synonym 'v js_object = "(string \<times> 'v) list"

definition Object_prototype_keys :: "string list" where
  "Object_prototype_keys =
     [''constructor'', ''__defineGetter__'', ''__defineSetter__'', ''hasOwnProperty'',
      ''__lookupGetter__'', ''__lookupSetter__'', ''isPrototypeOf'',
      ''propertyIsEnumerable'', ''toString'', ''valueOf'', ''__proto__'',
      ''toLocaleString'']"

datatype 'v js_lookup = OwnProperty 'v | InheritedProperty | Undefined_js

definition get_property :: "'v js_object \<Rightarrow> string \<Rightarrow> 'v js_lookup" where
  "get_property obj k =
     (case map_of obj k of
        Some v \<Rightarrow> OwnProperty v
      | None \<Rightarrow> if k \<in> set Object_prototype_keys then InheritedProperty else Undefined_js)"

definition is_digit :: "char \<Rightarrow> bool" where
  "is_digit c = (c \<in> set ''0123456789'')"

definition dec_value :: "string \<Rightarrow> nat" where
  "dec_value s = foldl (\<lambda>n c. 10 * n + (of_char c - 48)) 0 s"

text \<open>
  A key is an array index when it is the canonical decimal form of an integer below
  \<open>2^32 - 1\<close>.
\<close>

definition array_index :: "string \<Rightarrow> nat option" where
  "array_index s =
     (if s \<noteq> [] \<and> list_all is_digit s \<and> (s = ''0'' \<or> hd s \<noteq> CHR ''0'')
         \<and> dec_value s < 4294967295
      then Some (dec_value s) else None)"

definition index_value :: "string \<Rightarrow> nat" where
  "index_value s = (case array_index s of Some n \<Rightarrow> n | None \<Rightarrow> 0)"

definition Object_values :: "'v js_object \<Rightarrow> 'v list" where
  "Object_values obj =
     map snd (sort_key (\<lambda>p. index_value (fst p)) (filter (\<lambda>p. array_index (fst p) \<noteq> None) obj)
              @ filter (\<lambda>p. array_index (fst p) = None) obj)"

section \<open>Grouping the joined rows by event\<close>

datatype js_error = TypeError

text \<open>
  The resolution of the nested relation:
  \<^verbatim>\<open>
  if (Array.isArray(entry.events)) { eventData = entry.events[0] || null; }
  else if (entry.events) { eventData = entry.events; }
  \<close>
\<close>

definition eventData_of :: "events_relation \<Rightarrow> EventDetails option" where
  "eventData_of rel =
     (case rel of
        EventsArray xs \<Rightarrow> (case xs of [] \<Rightarrow> None | e # _ \<Rightarrow> Some e)
      | EventsObject e \<Rightarrow> Some e
      | EventsNull \<Rightarrow> None)"

definition new_group :: "EventDetails \<Rightarrow> EventGroup" where
  "new_group eventData =
     \<lparr>event = \<lparr>id_e = id_e eventData, name_e = name_e eventData,
                capacity = capacity eventData, reserved = reserved eventData,
                start_time_date = start_time_date eventData, venue = venue eventData\<rparr>,
      waitlist = [], totalCount = 0\<rparr>"

definition entry_of :: "joined_row \<Rightarrow> WaitlistEntry" where
  "entry_of entry =
     \<lparr>id_w = id_w entry, email = email entry, referral = referral entry,
      position = position entry, created_at = created_at entry\<rparr>"

text \<open>
  The last two statements of the callback: \<^verbatim>\<open>waitlist.push({...})\<close> and
  \<^verbatim>\<open>totalCount++\<close> on the group stored under the key.
\<close>

definition push_entry :: "EventGroup \<Rightarrow> joined_row \<Rightarrow> EventGroup" where
  "push_entry grp entry =
     grp\<lparr>waitlist := waitlist grp @ [entry_of entry], totalCount := totalCount grp + 1\<rparr>"

text \<open>
  The callback of \<^verbatim>\<open>waitlistEntries?.forEach\<close>. Each early \<^verbatim>\<open>return\<close> leaves the
  object as it is. The guard \<^verbatim>\<open>!groupedByEvent[eventId]\<close> is true only when the lookup is
  undefined; reading \<^verbatim>\<open>.waitlist\<close> of an inherited property gives undefined, and calling
  \<^verbatim>\<open>.push\<close> on it throws a TypeError.
\<close>

definition forEach_callback ::
  "EventGroup js_object \<Rightarrow> joined_row \<Rightarrow> js_error + EventGroup js_object" where
  "forEach_callback groupedByEvent entry =
     (case event_id entry of
        None \<Rightarrow> Inr groupedByEvent
      | Some eventId \<Rightarrow>
          if eventId = [] then Inr groupedByEvent
          else (case eventData_of (events entry) of
                  None \<Rightarrow> Inr groupedByEvent
                | Some eventData \<Rightarrow>
                    if \<not> truthy (id_e eventData) then Inr groupedByEvent
                    else
                      let g1 = (case get_property groupedByEvent eventId of
                                  Undefined_js \<Rightarrow>
                                    AList.update eventId (new_group eventData) groupedByEvent
                                | _ \<Rightarrow> groupedByEvent)
                      in (case get_property g1 eventId of
                            OwnProperty grp \<Rightarrow>
                              Inr (AList.update eventId (push_entry grp entry) g1)
                          | _ \<Rightarrow> Inl TypeError)))"

fun forEach ::
  "EventGroup js_object \<Rightarrow> joined_row list \<Rightarrow> js_error + EventGroup js_object" where
  "forEach groupedByEvent [] = Inr groupedByEvent"
| "forEach groupedByEvent (entry # rest) =
     (case forEach_callback groupedByEvent entry of
        Inl e \<Rightarrow> Inl e
      | Inr g \<Rightarrow> forEach g rest)"

text \<open>
  From \<^verbatim>\<open>const groupedByEvent = {}\<close> to \<^verbatim>\<open>Object.values(groupedByEvent)\<close>: the
  grouping as both callers run it. An exception leaves the block.
\<close>

definition group_by_event :: "joined_row list \<Rightarrow> js_error + EventGroup list" where
  "group_by_event waitlistEntries =
     (case forEach [] waitlistEntries of
        Inl e \<Rightarrow> Inl e
      | Inr groupedByEvent \<Rightarrow> Inr (Object_values groupedByEvent))"

section \<open>Admin verification\<close>

text \<open>
  What \<^verbatim>\<open>verifyAdminRequest\<close> reads from its two collaborators: the result of
  \<^verbatim>\<open>supabase.auth.getUser()\<close>, and for an email the \<^verbatim>\<open>data\<close> of
  \<^verbatim>\<open>from("roles").select("roles").eq("email", email).single()\<close>, which is null when
  there is not exactly one record.
\<close>

record supabase_user =
  email_u :: "string option"

record admin_record =
  roles :: "string option"

record auth_env =
  user :: "supabase_user option"
  userError :: "string option"
  roles_single :: "string \<Rightarrow> admin_record option"

datatype AdminVerificationResult =
    UnauthorizedResult string
  | AuthorizedResult string

text \<open>
  \<^verbatim>\<open>String.prototype.split\<close> with a one-character separator: the pieces between the
  separators, empty pieces included; the empty string gives one empty piece.
\<close>

fun split_on :: "char \<Rightarrow> string \<Rightarrow> string list" where
  "split_on sep [] = [[]]"
| "split_on sep (c # cs) =
     (if c = sep then [] # split_on sep cs
      else (case split_on sep cs of
              [] \<Rightarrow> [[c]]
            | w # ws \<Rightarrow> (c # w) # ws))"

definition user_email :: "auth_env \<Rightarrow> string option" where
  "user_email env = (case user env of None \<Rightarrow> None | Some u \<Rightarrow> email_u u)"

definition verifyAdminRequest :: "auth_env \<Rightarrow> AdminVerificationResult" where
  "verifyAdminRequest env =
     (if userError env \<noteq> None \<or> \<not> truthy (user_email env)
      then UnauthorizedResult ''Not authenticated''
      else
        (case user_email env of
           None \<Rightarrow> UnauthorizedResult ''Not authenticated''
         | Some address \<Rightarrow>
             (case roles_single env address of
                None \<Rightarrow> UnauthorizedResult ''Not authorized''
              | Some adminRecord \<Rightarrow>
                  (case roles adminRecord of
                     None \<Rightarrow> UnauthorizedResult ''Not authorized''
                   | Some rs \<Rightarrow>
                       if ''admin'' \<in> set (split_on CHR '','' rs)
                       then AuthorizedResult address
                       else UnauthorizedResult ''Not authorized''))))"

section \<open>The route handler and the page loader\<close>

text \<open>
  The results of the queries that the handlers send through the admin client, as
  \<^verbatim>\<open>{ data, error }\<close> pairs.
\<close>

record 'a query_result =
  data :: "'a option"
  error_q :: "string option"

record database =
  events_single :: "string \<Rightarrow> EventDetails query_result"
  waitlist_of_event :: "string \<Rightarrow> WaitlistEntry list query_result"
  waitlist_joined :: "joined_row list query_result"

datatype response_body =
    ErrorBody string
  | SingleBody EventDetails "WaitlistEntry list" nat
  | LeaderboardBody "EventGroup list"

record response =
  status :: nat
  body :: response_body

text \<open>
  The body \<^verbatim>\<open>{ error }\<close> is \<open>ErrorBody\<close>; \<^verbatim>\<open>{ event, waitlist, totalCount, grouped: false }\<close>
  is \<open>SingleBody\<close>; \<^verbatim>\<open>{ leaderboard, grouped: true }\<close> is \<open>LeaderboardBody\<close>.
  \<^verbatim>\<open>isValidUUID\<close> lives in \<^verbatim>\<open>app/lib/validation\<close> and is a parameter here. An exception
  inside the \<^verbatim>\<open>try\<close> block becomes the 500 response of the \<^verbatim>\<open>catch\<close> block.
\<close>

definition GET_single :: "database \<Rightarrow> string \<Rightarrow> response" where
  "GET_single db eventId =
     (let found = events_single db eventId in
      if error_q found \<noteq> None then \<lparr>status = 404, body = ErrorBody ''Event not found''\<rparr>
      else
        (case data found of
           None \<Rightarrow> \<lparr>status = 404, body = ErrorBody ''Event not found''\<rparr>
         | Some event_row \<Rightarrow>
             (let wl = waitlist_of_event db eventId in
              if error_q wl \<noteq> None
              then \<lparr>status = 500, body = ErrorBody ''Failed to fetch waitlist''\<rparr>
              else
                (case data wl of
                   None \<Rightarrow> \<lparr>status = 200, body = SingleBody event_row [] 0\<rparr>
                 | Some entries \<Rightarrow>
                     \<lparr>status = 200, body = SingleBody event_row entries (length entries)\<rparr>))))"

definition GET_grouped :: "database \<Rightarrow> response" where
  "GET_grouped db =
     (let q = waitlist_joined db in
      if error_q q \<noteq> None then \<lparr>status = 500, body = ErrorBody ''Failed to fetch waitlist''\<rparr>
      else
        (case group_by_event (case data q of None \<Rightarrow> [] | Some waitlistEntries \<Rightarrow> waitlistEntries) of
           Inl e \<Rightarrow> \<lparr>status = 500, body = ErrorBody ''Internal server error''\<rparr>
         | Inr leaderboard \<Rightarrow> \<lparr>status = 200, body = LeaderboardBody leaderboard\<rparr>))"

definition GET :: "(string \<Rightarrow> bool) \<Rightarrow> auth_env \<Rightarrow> database \<Rightarrow> string option \<Rightarrow> response" where
  "GET isValidUUID env db eventId =
     (case verifyAdminRequest env of
        UnauthorizedResult e \<Rightarrow> \<lparr>status = 401, body = ErrorBody e\<rparr>
      | AuthorizedResult _ \<Rightarrow>
          (case eventId of
             None \<Rightarrow> GET_grouped db
           | Some eid \<Rightarrow>
               if eid = [] then GET_grouped db
               else if \<not> isValidUUID eid
               then \<lparr>status = 400, body = ErrorBody ''Invalid event ID format''\<rparr>
               else GET_single db eid))"

record page_props =
  initialWaitlist :: "EventGroup list"
  isGrouped :: bool

definition getInitialWaitlist :: "auth_env \<Rightarrow> database \<Rightarrow> page_props" where
  "getInitialWaitlist env db =
     (case verifyAdminRequest env of
        UnauthorizedResult _ \<Rightarrow> \<lparr>initialWaitlist = [], isGrouped = True\<rparr>
      | AuthorizedResult _ \<Rightarrow>
          (let q = waitlist_joined db in
           if error_q q \<noteq> None then \<lparr>initialWaitlist = [], isGrouped = True\<rparr>
           else
             (case group_by_event (case data q of None \<Rightarrow> [] | Some waitlistEntries \<Rightarrow> waitlistEntries) of
                Inl e \<Rightarrow> \<lparr>initialWaitlist = [], isGrouped = True\<rparr>
              | Inr groups \<Rightarrow> \<lparr>initialWaitlist = groups, isGrouped = True\<rparr>)))"

section \<open>The client component and its in-flight requests\<close>

text \<open>
  The state of \<^verbatim>\<open>WaitlistViewerClient\<close>: its five \<^verbatim>\<open>useState\<close> cells, and the fetches
  that have been started and whose promise has not settled yet, oldest first, each with the
  \<^verbatim>\<open>selectedEventId\<close> that its closure captured.
\<close>

datatype waitlist_view =
    GroupsView "EventGroup list"
  | EntriesView "WaitlistEntry list"

record client_state =
  waitlist_c :: waitlist_view
  selectedEventId :: string
  isLoading :: bool
  error_c :: "string option"
  isGrouped_c :: bool
  in_flight :: "string list"

text \<open>
  What awaiting the request gives to the \<^verbatim>\<open>try\<close> block: a parsed body with a truthy
  \<^verbatim>\<open>grouped\<close> and its \<^verbatim>\<open>leaderboard\<close>, a parsed body with a falsy \<^verbatim>\<open>grouped\<close> and its
  \<^verbatim>\<open>waitlist\<close>, or a thrown error with its message (network failure, a response that is
  not ok, a wrong content type).
\<close>

datatype fetch_outcome =
    GroupedData "EventGroup list option"
  | UngroupedData "WaitlistEntry list option"
  | FetchError string

text \<open>
  \<^verbatim>\<open>fetchWaitlist\<close> up to its \<^verbatim>\<open>await fetch(...)\<close>, and from there on.
\<close>

definition fetchWaitlist_start :: "client_state \<Rightarrow> client_state" where
  "fetchWaitlist_start s =
     s\<lparr>isLoading := True, error_c := None, in_flight := in_flight s @ [selectedEventId s]\<rparr>"

definition fetchWaitlist_settle :: "fetch_outcome \<Rightarrow> client_state \<Rightarrow> client_state" where
  "fetchWaitlist_settle outcome s =
     (case outcome of
        GroupedData leaderboard \<Rightarrow>
          s\<lparr>waitlist_c := GroupsView (case leaderboard of None \<Rightarrow> [] | Some gs \<Rightarrow> gs),
            isGrouped_c := True, isLoading := False\<rparr>
      | UngroupedData entries \<Rightarrow>
          s\<lparr>waitlist_c := EntriesView (case entries of None \<Rightarrow> [] | Some es \<Rightarrow> es),
            isGrouped_c := False, isLoading := False\<rparr>
      | FetchError message \<Rightarrow>
          s\<lparr>error_c := Some message, isLoading := False\<rparr>)"

text \<open>
  The component after its first render: the initial values of the state cells, and the
  effect \<^verbatim>\<open>useEffect(() => { fetchWaitlist(); }, [selectedEventId])\<close> run once.
\<close>

definition mount :: "waitlist_view \<Rightarrow> bool \<Rightarrow> string option \<Rightarrow> client_state" where
  "mount initial_view initialIsGrouped initialEventId =
     fetchWaitlist_start
       \<lparr>waitlist_c = initial_view,
        selectedEventId = (case initialEventId of None \<Rightarrow> [] | Some i \<Rightarrow> i),
        isLoading = False, error_c = None, isGrouped_c = initialIsGrouped, in_flight = []\<rparr>"

text \<open>
  What can happen next: the user picks an event in the filter (the effect runs again only
  when the value changed), the user presses Refresh, or the request at some place of the
  in-flight list settles. The endpoint's answer for a given \<^verbatim>\<open>eventId\<close> parameter is
  \<open>api\<close>.
\<close>

datatype client_event = SelectEvent string | Refresh | Settle nat

definition step :: "(string \<Rightarrow> fetch_outcome) \<Rightarrow> client_state \<Rightarrow> client_event \<Rightarrow> client_state" where
  "step api s ev =
     (case ev of
        SelectEvent v \<Rightarrow>
          if v = selectedEventId s then s
          else fetchWaitlist_start (s\<lparr>selectedEventId := v\<rparr>)
      | Refresh \<Rightarrow> fetchWaitlist_start s
      | Settle n \<Rightarrow>
          if n < length (in_flight s)
          then fetchWaitlist_settle (api (in_flight s ! n))
                 (s\<lparr>in_flight := take n (in_flight s) @ drop (Suc n) (in_flight s)\<rparr>)
          else s)"

definition run :: "(string \<Rightarrow> fetch_outcome) \<Rightarrow> client_state \<Rightarrow> client_event list \<Rightarrow> client_state" where
  "run api s evs = foldl (step api) s evs"

section \<open>Sales bucketing\<close>

text \<open>
  The shape of one point of the series, as \<^verbatim>\<open>TicketSalesGraph.tsx\<close> reads it from
  \<^verbatim>\<open>/api/events/{eventId}/sales\<close>, with the bucket start as milliseconds since the epoch.
\<close>

record SalesBucket =
  time_b :: int
  count_b :: nat
  cumulative :: nat

record sales_result =
  data_s :: "SalesBucket list"
  totalTickets :: nat

text \<open>
  Modelled from the spec: the route handler of \<^verbatim>\<open>/api/events/{eventId}/sales\<close>, which
  holds the bucketing, is not among the sources. Section 3: buckets are one hour wide.
\<close>

definition hour_ms :: int where
  "hour_ms = 3600000"

text \<open>
  Modelled from the spec: section 4.3, step 2. A timestamp is truncated to the start of its
  clock hour.
\<close>

definition truncate_hour :: "int \<Rightarrow> int" where
  "truncate_hour t = t div hour_ms * hour_ms"

text \<open>
  Modelled from the spec: section 4.3, step 3, leaves the choice between a sparse and a
  dense bucket sequence open; \<open>dense\<close> selects it. The dense sequence starts with one empty
  bucket for every hour from the hour of the first sale to the hour of the last sale; the
  sparse one starts empty.
\<close>

definition empty_buckets :: "bool \<Rightarrow> int list \<Rightarrow> (int \<times> nat) list" where
  "empty_buckets dense sorted_times =
     (if dense then
        (case sorted_times of
           [] \<Rightarrow> []
         | first_sale # _ \<Rightarrow>
             map (\<lambda>h. (h * hour_ms, 0)) [first_sale div hour_ms .. last sorted_times div hour_ms])
      else [])"

text \<open>
  Modelled from the spec: one step of the fold of section 4.3, step 3. The bucket of the
  sale is incremented, or appended with count one when its key is seen for the first time.
\<close>

definition count_sale :: "int \<Rightarrow> (int \<times> nat) list \<Rightarrow> (int \<times> nat) list" where
  "count_sale t buckets =
     AList.update (truncate_hour t)
       (case map_of buckets (truncate_hour t) of None \<Rightarrow> 1 | Some c \<Rightarrow> c + 1) buckets"

text \<open>Modelled from the spec: the running-sum pass of section 4.3, step 4.\<close>

fun running_sum :: "nat \<Rightarrow> (int \<times> nat) list \<Rightarrow> SalesBucket list" where
  "running_sum acc [] = []"
| "running_sum acc ((k, c) # rest) =
     \<lparr>time_b = k, count_b = c, cumulative = acc + c\<rparr> # running_sum (acc + c) rest"

text \<open>
  Modelled from the spec: the engine of section 4.3 as a whole. The timestamps are sorted,
  folded into buckets and accumulated; \<open>totalTickets\<close> is the final cumulative value, and 0
  when there is no bucket.
\<close>

definition sales_buckets :: "bool \<Rightarrow> int list \<Rightarrow> sales_result" where
  "sales_buckets dense timestamps =
     (let sorted_times = sort timestamps;
          buckets = running_sum 0 (fold count_sale sorted_times (empty_buckets dense sorted_times))
      in \<lparr>data_s = buckets,
          totalTickets = (case buckets of [] \<Rightarrow> 0 | _ \<Rightarrow> cumulative (last buckets))\<rparr>)"

section \<open>Notions used in the statements\<close>

text \<open>
  A row survives the two guards of the callback when its \<^verbatim>\<open>event_id\<close> is truthy and
  the resolved event record exists and has a truthy \<^verbatim>\<open>id\<close>.
\<close>

definition survives :: "joined_row \<Rightarrow> bool" where
  "survives entry =
     (truthy (event_id entry) \<and>
      (case eventData_of (events entry) of
         None \<Rightarrow> False
       | Some eventData \<Rightarrow> truthy (id_e eventData)))"

definition key_of :: "joined_row \<Rightarrow> string" where
  "key_of entry = (case event_id entry of Some eventId \<Rightarrow> eventId | None \<Rightarrow> [])"

text \<open>The distinct elements of a list, each at the place of its first occurrence.\<close>

fun first_seen :: "'a list \<Rightarrow> 'a list" where
  "first_seen [] = []"
| "first_seen (x # xs) = x # first_seen (removeAll x xs)"

definition seen_keys :: "joined_row list \<Rightarrow> string list" where
  "seen_keys rows = first_seen (map key_of (filter survives rows))"

definition members :: "string \<Rightarrow> joined_row list \<Rightarrow> joined_row list" where
  "members k rows = filter (\<lambda>entry. survives entry \<and> key_of entry = k) rows"

definition event_for :: "joined_row list \<Rightarrow> string \<Rightarrow> EventDetails option" where
  "event_for rows k =
     (case members k rows of
        [] \<Rightarrow> None
      | entry # _ \<Rightarrow> map_option (\<lambda>eventData. event (new_group eventData))
                      (eventData_of (events entry)))"

text \<open>
  The state of the object after a prefix of the rows has been processed: the keys are the
  event ids of the surviving rows in order of first occurrence, and the group under a key
  holds the surviving rows of that key in input order.
\<close>

definition store_ok :: "joined_row list \<Rightarrow> EventGroup js_object \<Rightarrow> bool" where
  "store_ok rows g =
     (map fst g = seen_keys rows \<and>
      (\<forall>k grp. (k, grp) \<in> set g \<longrightarrow>
         waitlist grp = map entry_of (members k rows) \<and>
         totalCount grp = length (members k rows) \<and>
         event_for rows k = Some (event grp)))"

text \<open>The inputs on which the callback throws.\<close>

definition throws :: "joined_row list \<Rightarrow> bool" where
  "throws rows = (\<exists>entry \<in> set rows. survives entry \<and> key_of entry \<in> set Object_prototype_keys)"

definition logged_in :: "auth_env \<Rightarrow> bool" where
  "logged_in env = (userError env = None \<and> truthy (user_email env))"

text \<open>Joining pieces with a separator, the inverse of \<open>split_on\<close>.\<close>

fun join :: "char \<Rightarrow> string list \<Rightarrow> string" where
  "join sep [] = []"
| "join sep [w] = w"
| "join sep (w # ws) = w @ sep # join sep ws"

text \<open>The state shows a given outcome of a request.\<close>

definition displays :: "client_state \<Rightarrow> fetch_outcome \<Rightarrow> bool" where
  "displays s outcome =
     (case outcome of
        GroupedData leaderboard \<Rightarrow>
          waitlist_c s = GroupsView (case leaderboard of None \<Rightarrow> [] | Some gs \<Rightarrow> gs) \<and> isGrouped_c s
      | UngroupedData entries \<Rightarrow>
          waitlist_c s = EntriesView (case entries of None \<Rightarrow> [] | Some es \<Rightarrow> es) \<and> \<not> isGrouped_c s
      | FetchError message \<Rightarrow> error_c s = Some message)"

text \<open>Responses arrive in the order in which the requests were sent.\<close>

definition in_request_order :: "client_event list \<Rightarrow> bool" where
  "in_request_order evs = list_all (\<lambda>ev. case ev of Settle n \<Rightarrow> n = 0 | _ \<Rightarrow> True) evs"

definition settled_for_selection :: "(string \<Rightarrow> fetch_outcome) \<Rightarrow> client_state \<Rightarrow> bool" where
  "settled_for_selection api s =
     ((in_flight s \<noteq> [] \<longrightarrow> last (in_flight s) = selectedEventId s) \<and>
      (in_flight s = [] \<longrightarrow> displays s (api (selectedEventId s))))"

section \<open>Sample data\<close>

definition sample_event :: "string \<Rightarrow> EventDetails" where
  "sample_event i =
     \<lparr>id_e = Some i, name_e = Some ''Spring Lecture'', capacity = 300, reserved = Some 120,
      start_time_date = None, venue = Some ''Memorial Auditorium''\<rparr>"

definition sample_row :: "string \<Rightarrow> int \<Rightarrow> string option \<Rightarrow> events_relation \<Rightarrow> joined_row" where
  "sample_row i pos eid rel =
     \<lparr>id_w = i, email = ''guest@example.org'', referral = None, position = pos,
      created_at = ''2025-03-01T10:00:00Z'', event_id = eid, events = rel\<rparr>"

definition uuid_a :: string where "uuid_a = ''9b2f6c1e-7a34-4d0b-8e55-1c2d3e4f5a6b''"
definition uuid_b :: string where "uuid_b = ''0d4e8a77-3c21-4f9e-b6a0-5e7f1a2b3c4d''"

definition sample_rows :: "joined_row list" where
  "sample_rows =
     [sample_row ''w1'' 1 (Some uuid_b) (EventsObject (sample_event uuid_b)),
      sample_row ''w2'' 1 (Some uuid_a) (EventsArray [sample_event uuid_a]),
      sample_row ''w3'' 2 (Some uuid_b) (EventsObject (sample_event uuid_b)),
      sample_row ''w4'' 3 None EventsNull,
      sample_row ''w5'' 4 (Some uuid_a) (EventsArray [])]"

definition sample_entry :: "string \<Rightarrow> int \<Rightarrow> WaitlistEntry" where
  "sample_entry i pos =
     \<lparr>id_w = i, email = ''guest@example.org'', referral = None, position = pos,
      created_at = ''2025-03-01T10:00:00Z''\<rparr>"

definition sample_groups :: "EventGroup list" where
  "sample_groups =
     [\<lparr>event = sample_event uuid_b, waitlist = [sample_entry ''w1'' 1, sample_entry ''w3'' 2],
       totalCount = 2\<rparr>,
      \<lparr>event = sample_event uuid_a, waitlist = [sample_entry ''w2'' 1], totalCount = 1\<rparr>]"

definition inherited_row :: joined_row where
  "inherited_row =
     sample_row ''w9'' 1 (Some ''constructor'') (EventsObject (sample_event ''constructor''))"

definition index_rows :: "joined_row list" where
  "index_rows =
     [sample_row ''w1'' 1 (Some ''2'') (EventsObject (sample_event ''2'')),
      sample_row ''w2'' 1 (Some ''1'') (EventsObject (sample_event ''1''))]"

definition index_groups :: "EventGroup list" where
  "index_groups =
     [\<lparr>event = sample_event ''1'', waitlist = [sample_entry ''w2'' 1], totalCount = 1\<rparr>,
      \<lparr>event = sample_event ''2'', waitlist = [sample_entry ''w1'' 1], totalCount = 1\<rparr>]"

definition anonymous_env :: auth_env where
  "anonymous_env = \<lparr>user = None, userError = Some ''Auth session missing!'', roles_single = (\<lambda>_. None)\<rparr>"

definition member_env :: auth_env where
  "member_env =
     \<lparr>user = Some \<lparr>email_u = Some ''student@stanford.edu''\<rparr>, userError = None,
      roles_single = (\<lambda>e. if e = ''student@stanford.edu'' then Some \<lparr>roles = Some ''administrator''\<rparr> else None)\<rparr>"

definition admin_env :: auth_env where
  "admin_env =
     \<lparr>user = Some \<lparr>email_u = Some ''chair@stanford.edu''\<rparr>, userError = None,
      roles_single = (\<lambda>e. if e = ''chair@stanford.edu'' then Some \<lparr>roles = Some ''member,admin''\<rparr> else None)\<rparr>"

definition sample_isValidUUID :: "string \<Rightarrow> bool" where
  "sample_isValidUUID s = (length s = 36)"

definition db_with :: "joined_row list \<Rightarrow> database" where
  "db_with rows =
     \<lparr>events_single = (\<lambda>_. \<lparr>data = None, error_q = Some ''no rows''\<rparr>),
      waitlist_of_event = (\<lambda>_. \<lparr>data = Some [], error_q = None\<rparr>),
      waitlist_joined = \<lparr>data = Some rows, error_q = None\<rparr>\<rparr>"

definition sample_db :: database where
  "sample_db = db_with sample_rows"

definition sample_api :: "string \<Rightarrow> fetch_outcome" where
  "sample_api eventId =
     (if eventId = [] then GroupedData (Some sample_groups)
      else UngroupedData (Some [sample_entry ''w2'' 1]))"

definition sample_mount :: client_state where
  "sample_mount = mount (GroupsView []) True None"

section \<open>Properties of the grouping\<close>

lemma forEach_snoc:
  "forEach g (xs @ [x]) = (case forEach g xs of Inl e \<Rightarrow> Inl e | Inr g' \<Rightarrow> forEach_callback g' x)"
  by (induction xs arbitrary: g) (auto split: sum.splits)

lemma first_seen_snoc:
  "first_seen (xs @ [y]) = (if y \<in> set xs then first_seen xs else first_seen xs @ [y])"
  by (induction xs rule: first_seen.induct) auto

lemma set_first_seen [simp]: "set (first_seen xs) = set xs"
  by (induction xs rule: first_seen.induct) auto

lemma distinct_first_seen [simp]: "distinct (first_seen xs)"
  by (induction xs rule: first_seen.induct) auto

lemma callback_skips: "\<not> survives x \<Longrightarrow> forEach_callback g x = Inr g"
  by (auto simp: survives_def forEach_callback_def split: option.splits)

lemma callback_inherited:
  "survives x \<Longrightarrow> key_of x \<in> set Object_prototype_keys \<Longrightarrow> map_of g (key_of x) = None
   \<Longrightarrow> forEach_callback g x = Inl TypeError"
  by (auto simp: survives_def forEach_callback_def key_of_def get_property_def
      split: option.splits)

lemma callback_survives:
  "survives x \<Longrightarrow> key_of x \<notin> set Object_prototype_keys \<Longrightarrow> eventData_of (events x) = Some ed
   \<Longrightarrow> forEach_callback g x =
       Inr (AList.update (key_of x)
             (push_entry (case map_of g (key_of x) of Some grp \<Rightarrow> grp | None \<Rightarrow> new_group ed) x) g)"
  by (auto simp: survives_def forEach_callback_def key_of_def get_property_def update_conv'
      split: option.splits)

lemma set_update_distinct:
  "distinct (map fst al) \<Longrightarrow> set (AList.update k v al) = insert (k, v) {p \<in> set al. fst p \<noteq> k}"
  by (induct al) (auto simp: rev_image_eqI)

lemma members_snoc:
  "members k (xs @ [x]) = members k xs @ (if survives x \<and> key_of x = k then [x] else [])"
  by (simp add: members_def)

lemma members_empty_iff: "members k xs = [] \<longleftrightarrow> k \<notin> set (seen_keys xs)"
  by (auto simp: members_def seen_keys_def filter_empty_conv)

lemma seen_keys_snoc:
  "seen_keys (xs @ [x]) =
     (if survives x \<and> key_of x \<notin> set (seen_keys xs) then seen_keys xs @ [key_of x]
      else seen_keys xs)"
  by (simp add: seen_keys_def first_seen_snoc)

lemma event_for_snoc_other:
  "\<not> (survives x \<and> key_of x = k) \<Longrightarrow> event_for (xs @ [x]) k = event_for xs k"
  by (auto simp: event_for_def members_snoc)

lemma event_for_snoc_old:
  "members k xs \<noteq> [] \<Longrightarrow> event_for (xs @ [x]) k = event_for xs k"
  by (cases "members k xs") (auto simp: event_for_def members_snoc)

lemma event_for_snoc_new:
  "members k xs = [] \<Longrightarrow> survives x \<Longrightarrow> key_of x = k \<Longrightarrow> eventData_of (events x) = Some ed
   \<Longrightarrow> event_for (xs @ [x]) k = Some (event (new_group ed))"
  by (simp add: event_for_def members_snoc)

lemma callback_step:
  assumes ok: "store_ok xs g" and sv: "survives x"
    and plain: "key_of x \<notin> set Object_prototype_keys"
  shows "\<exists>g'. forEach_callback g x = Inr g' \<and> store_ok (xs @ [x]) g'"
proof -
  from sv obtain ed where ed: "eventData_of (events x) = Some ed"
    by (auto simp: survives_def split: option.splits)
  define k where "k = key_of x"
  define grp0 where "grp0 = (case map_of g k of Some grp \<Rightarrow> grp | None \<Rightarrow> new_group ed)"
  define g' where "g' = AList.update k (push_entry grp0 x) g"
  have run: "forEach_callback g x = Inr g'"
    using callback_survives [OF sv plain ed] by (simp add: g'_def grp0_def k_def)
  have keys: "map fst g = seen_keys xs" and dist: "distinct (map fst g)"
    using ok by (simp_all add: store_ok_def seen_keys_def)
  have keys': "map fst g' = seen_keys (xs @ [x])"
    using sv keys by (simp add: g'_def update_keys seen_keys_snoc k_def)
  have set': "set g' = insert (k, push_entry grp0 x) {p \<in> set g. fst p \<noteq> k}"
    unfolding g'_def by (rule set_update_distinct [OF dist])
  have old: "waitlist grp = map entry_of (members j (xs @ [x])) \<and>
             totalCount grp = length (members j (xs @ [x])) \<and>
             event_for (xs @ [x]) j = Some (event grp)"
    if "(j, grp) \<in> set g" "j \<noteq> k" for j grp
    using ok that by (simp add: store_ok_def members_snoc event_for_snoc_other k_def)
  have new: "waitlist (push_entry grp0 x) = map entry_of (members k (xs @ [x])) \<and>
             totalCount (push_entry grp0 x) = length (members k (xs @ [x])) \<and>
             event_for (xs @ [x]) k = Some (event (push_entry grp0 x))"
  proof (cases "map_of g k")
    case None
    then have "k \<notin> set (seen_keys xs)"
      using keys by (metis map_of_eq_None_iff set_map)
    then have empty: "members k xs = []"
      by (simp add: members_empty_iff)
    have "grp0 = new_group ed"
      using None by (simp add: grp0_def)
    then show ?thesis
      using empty sv ed event_for_snoc_new [OF empty sv k_def [symmetric] ed]
      by (simp add: push_entry_def new_group_def members_snoc k_def)
  next
    case (Some grp)
    then have mem: "(k, grp) \<in> set g"
      by (rule map_of_SomeD)
    then have facts: "waitlist grp = map entry_of (members k xs)"
      "totalCount grp = length (members k xs)" "event_for xs k = Some (event grp)"
      using ok by (simp_all add: store_ok_def)
    have "k \<in> set (seen_keys xs)"
      using mem keys by (metis fst_conv image_eqI set_map)
    then have nonempty: "members k xs \<noteq> []"
      by (simp add: members_empty_iff)
    have "grp0 = grp"
      using Some by (simp add: grp0_def)
    then show ?thesis
      using facts sv event_for_snoc_old [OF nonempty, of x]
      by (simp add: push_entry_def members_snoc k_def)
  qed
  have "store_ok (xs @ [x]) g'"
    unfolding store_ok_def
  proof (intro conjI allI impI)
    show "map fst g' = seen_keys (xs @ [x])" by (rule keys')
  next
    fix j grp assume "(j, grp) \<in> set g'"
    then consider "j = k" "grp = push_entry grp0 x" | "(j, grp) \<in> set g" "j \<noteq> k"
      using set' by auto
    then have "waitlist grp = map entry_of (members j (xs @ [x])) \<and>
             totalCount grp = length (members j (xs @ [x])) \<and>
             event_for (xs @ [x]) j = Some (event grp)"
      using old new by cases auto
    then show "waitlist grp = map entry_of (members j (xs @ [x]))"
      "totalCount grp = length (members j (xs @ [x]))"
      "event_for (xs @ [x]) j = Some (event grp)"
      by simp_all
  qed
  with run show ?thesis by blast
qed

lemma store_ok_skip: "store_ok xs g \<Longrightarrow> \<not> survives x \<Longrightarrow> store_ok (xs @ [x]) g"
  by (simp add: store_ok_def seen_keys_snoc members_snoc event_for_snoc_other)

lemma forEach_characterised:
  "if throws rows then forEach [] rows = Inl TypeError
   else (\<exists>g. forEach [] rows = Inr g \<and> store_ok rows g)"
proof (induction rows rule: rev_induct)
  case Nil
  show ?case
    by (simp add: throws_def store_ok_def seen_keys_def)
next
  case (snoc x xs)
  show ?case
  proof (cases "throws xs")
    case True
    then have "throws (xs @ [x])" by (auto simp: throws_def)
    moreover have "forEach [] (xs @ [x]) = Inl TypeError"
      using snoc True by (simp add: forEach_snoc)
    ultimately show ?thesis by simp
  next
    case False
    with snoc obtain g where g: "forEach [] xs = Inr g" "store_ok xs g"
      by auto
    show ?thesis
    proof (cases "survives x")
      case no: False
      then have "\<not> throws (xs @ [x])"
        using False by (auto simp: throws_def)
      moreover have "forEach [] (xs @ [x]) = Inr g"
        using g no by (simp add: forEach_snoc callback_skips)
      ultimately show ?thesis
        using store_ok_skip [OF g(2) no] by auto
    next
      case yes: True
      show ?thesis
      proof (cases "key_of x \<in> set Object_prototype_keys")
        case inh: True
        have "key_of x \<notin> set (seen_keys xs)"
          using False inh by (auto simp: throws_def seen_keys_def)
        then have "map_of g (key_of x) = None"
          using g(2) by (metis map_of_eq_None_iff set_map store_ok_def)
        then have "forEach [] (xs @ [x]) = Inl TypeError"
          using g yes inh by (simp add: forEach_snoc callback_inherited)
        moreover have "throws (xs @ [x])"
          using yes inh by (auto simp: throws_def)
        ultimately show ?thesis by simp
      next
        case plain: False
        then have "\<not> throws (xs @ [x])"
          using False by (auto simp: throws_def)
        moreover obtain g' where "forEach_callback g x = Inr g'" "store_ok (xs @ [x]) g'"
          using callback_step [OF g(2) yes plain] by blast
        ultimately show ?thesis
          using g by (auto simp: forEach_snoc)
      qed
    qed
  qed
qed

lemma mset_Object_values: "mset (Object_values obj) = mset (map snd obj)"
proof -
  have "mset (filter (\<lambda>p. array_index (fst p) \<noteq> None) obj)
        + mset (filter (\<lambda>p. array_index (fst p) = None) obj) = mset obj"
    by (induction obj) auto
  then have "image_mset snd (mset (filter (\<lambda>p. array_index (fst p) \<noteq> None) obj))
        + image_mset snd (mset (filter (\<lambda>p. array_index (fst p) = None) obj))
        = image_mset snd (mset obj)"
    by (metis image_mset_union)
  then show ?thesis
    by (simp add: Object_values_def)
qed

lemma Object_values_plain:
  "\<forall>k \<in> set (map fst obj). array_index k = None \<Longrightarrow> Object_values obj = map snd obj"
proof -
  assume a: "\<forall>k \<in> set (map fst obj). array_index k = None"
  then have "filter (\<lambda>p. array_index (fst p) \<noteq> None) obj = []"
    by (auto simp: filter_empty_conv)
  moreover have "filter (\<lambda>p. array_index (fst p) = None) obj = obj"
    using a by (auto simp: filter_id_conv)
  ultimately show ?thesis
    by (simp add: Object_values_def)
qed

lemma partition_by_key:
  "distinct ks \<Longrightarrow> f ` set xs \<subseteq> set ks
   \<Longrightarrow> (\<Sum>k\<leftarrow>ks. mset (map h (filter (\<lambda>x. f x = k) xs))) = mset (map h xs)"
proof (induction ks arbitrary: xs)
  case Nil
  then show ?case by simp
next
  case (Cons k ks)
  let ?rest = "filter (\<lambda>x. f x \<noteq> k) xs"
  have sub: "f ` set ?rest \<subseteq> set ks"
    using Cons.prems by auto
  have dist: "distinct ks"
    using Cons.prems by simp
  have IH: "(\<Sum>j\<leftarrow>ks. mset (map h (filter (\<lambda>x. f x = j) ?rest))) = mset (map h ?rest)"
    by (rule Cons.IH [OF dist sub])
  have same: "filter (\<lambda>x. f x = j) ?rest = filter (\<lambda>x. f x = j) xs" if "j \<in> set ks" for j
    using that Cons.prems(1) by (auto intro: filter_cong)
  have "map (\<lambda>j. mset (map h (filter (\<lambda>x. f x = j) xs))) ks
        = map (\<lambda>j. mset (map h (filter (\<lambda>x. f x = j) ?rest))) ks"
  proof (rule map_cong [OF refl])
    fix j assume "j \<in> set ks"
    then show "mset (map h (filter (\<lambda>x. f x = j) xs)) = mset (map h (filter (\<lambda>x. f x = j) ?rest))"
      by (simp only: same)
  qed
  then have "(\<Sum>j\<leftarrow>ks. mset (map h (filter (\<lambda>x. f x = j) xs))) = mset (map h ?rest)"
    using IH by (simp only:)
  moreover have "mset (map h (filter (\<lambda>x. f x = k) xs)) + mset (map h ?rest) = mset (map h xs)"
    by (induction xs) auto
  ultimately show ?case by simp
qed

lemma store_partition:
  assumes "store_ok rows g"
  shows "mset (concat (map waitlist (map snd g))) = mset (map entry_of (filter survives rows))"
proof -
  have keys: "map fst g = seen_keys rows"
    using assms by (simp add: store_ok_def)
  have "map (\<lambda>p. mset (waitlist (snd p))) g
        = map (\<lambda>p. mset (map entry_of (filter (\<lambda>e. key_of e = fst p) (filter survives rows)))) g"
    using assms by (auto simp: store_ok_def members_def conj_commute)
  also have "\<dots> = map (\<lambda>k. mset (map entry_of (filter (\<lambda>e. key_of e = k) (filter survives rows))))
                    (seen_keys rows)"
    unfolding keys [symmetric] by (simp add: comp_def)
  finally have "mset (concat (map waitlist (map snd g)))
        = (\<Sum>k\<leftarrow>seen_keys rows. mset (map entry_of (filter (\<lambda>e. key_of e = k) (filter survives rows))))"
    by (simp add: mset_concat comp_def)
  also have "\<dots> = mset (map entry_of (filter survives rows))"
    by (rule partition_by_key) (auto simp: seen_keys_def)
  finally show ?thesis .
qed

lemmas sample_defs =
  sample_rows_def sample_row_def sample_event_def sample_groups_def sample_entry_def
  uuid_a_def uuid_b_def

lemmas run_defs =
  group_by_event_def forEach_callback_def get_property_def Object_prototype_keys_def
  Object_values_def array_index_def is_digit_def eventData_of_def new_group_def
  push_entry_def entry_of_def

lemma sample_run: "group_by_event sample_rows = Inr sample_groups"
  by (simp add: sample_defs run_defs)

lemma set_Object_values: "set (Object_values obj) = snd ` set obj"
  by (metis mset_Object_values set_mset_mset set_map)

lemma group_by_event_Inr:
  assumes "group_by_event rows = Inr gs"
  shows "\<exists>st. forEach [] rows = Inr st \<and> store_ok rows st \<and> gs = Object_values st"
proof (cases "throws rows")
  case True
  then show ?thesis
    using assms forEach_characterised [of rows] by (simp add: group_by_event_def)
next
  case False
  then show ?thesis
    using assms forEach_characterised [of rows] by (auto simp: group_by_event_def)
qed

text \<open>
  C2. Every group that the grouping returns, on any input, has a \<open>totalCount\<close> equal to
  the length of its \<open>waitlist\<close>.
\<close>

theorem totalCount_is_length:
  assumes "group_by_event rows = Inr gs" and "g \<in> set gs"
  shows "totalCount g = length (waitlist g)"
proof -
  obtain st where st: "store_ok rows st" "gs = Object_values st"
    using group_by_event_Inr [OF assms(1)] by blast
  then obtain k where "(k, g) \<in> set st"
    using assms(2) by (auto simp: set_Object_values)
  then show ?thesis
    using st(1) by (simp add: store_ok_def)
qed

theorem totalCount_is_length_witness:
  "group_by_event sample_rows = Inr sample_groups \<and>
   totalCount (hd sample_groups) = length (waitlist (hd sample_groups))"
proof -
  have run: "group_by_event sample_rows = Inr sample_groups"
    by (rule sample_run)
  have mem: "hd sample_groups \<in> set sample_groups"
    by (simp add: sample_groups_def)
  show ?thesis
    using run totalCount_is_length [OF run mem] by simp
qed

text \<open>
  C10. Every group that the grouping returns has at least one entry: a group is created
  only by a row that is then pushed to it.
\<close>

theorem groups_never_empty:
  assumes "group_by_event rows = Inr gs" and "g \<in> set gs"
  shows "waitlist g \<noteq> [] \<and> 1 \<le> totalCount g"
proof -
  obtain st where st: "store_ok rows st" "gs = Object_values st"
    using group_by_event_Inr [OF assms(1)] by blast
  then obtain k where k: "(k, g) \<in> set st"
    using assms(2) by (auto simp: set_Object_values)
  then have "k \<in> set (seen_keys rows)"
    using st(1) by (metis fst_conv image_eqI set_map store_ok_def)
  then have "members k rows \<noteq> []"
    by (simp add: members_empty_iff)
  then show ?thesis
    using st(1) k by (cases "members k rows") (auto simp: store_ok_def)
qed

theorem groups_never_empty_witness:
  "group_by_event sample_rows = Inr sample_groups \<and>
   waitlist (last sample_groups) \<noteq> [] \<and> 1 \<le> totalCount (last sample_groups)"
proof -
  have run: "group_by_event sample_rows = Inr sample_groups"
    by (rule sample_run)
  have mem: "last sample_groups \<in> set sample_groups"
    by (simp add: sample_groups_def)
  show ?thesis
    using run groups_never_empty [OF run mem] by simp
qed

lemma group_by_event_total:
  assumes "\<not> throws rows"
  shows "\<exists>st. group_by_event rows = Inr (Object_values st) \<and> store_ok rows st"
  using assms forEach_characterised [of rows] by (auto simp: group_by_event_def)

lemma mset_concat_map_perm:
  assumes "mset xs = mset ys"
  shows "mset (concat (map f xs)) = mset (concat (map f ys))"
proof -
  have "mset (concat (map f zs)) = (\<Sum>z\<in>#mset zs. mset (f z))" for zs
    by (induction zs) auto
  then show ?thesis
    using assms by simp
qed




lemma store_values:
  assumes "store_ok rows st"
  shows "map waitlist (map snd st) = map (\<lambda>k. map entry_of (members k rows)) (seen_keys rows)"
    and "map (\<lambda>g. Some (event g)) (map snd st) = map (event_for rows) (seen_keys rows)"
proof -
  have keys: "seen_keys rows = map fst st"
    using assms by (simp add: store_ok_def)
  have each: "\<forall>p \<in> set st. waitlist (snd p) = map entry_of (members (fst p) rows) \<and>
                             event_for rows (fst p) = Some (event (snd p))"
    using assms by (auto simp: store_ok_def)
  show "map waitlist (map snd st) = map (\<lambda>k. map entry_of (members k rows)) (seen_keys rows)"
    by (simp add: keys each)
  show "map (\<lambda>g. Some (event g)) (map snd st) = map (event_for rows) (seen_keys rows)"
    by (simp add: keys each)
qed




lemma forEach_drops:
  "\<not> survives entry \<Longrightarrow> forEach g (pre @ entry # post) = forEach g (pre @ post)"
  by (induction pre arbitrary: g) (auto simp: callback_skips split: sum.splits)

text \<open>
  C3. An array relation resolves to its first element and an empty array to nothing; an
  object resolves to itself; null resolves to nothing. A row whose relation resolves to
  nothing, or to a record with a falsy id, is skipped without an error: the callback returns
  the object unchanged and the row has no effect on the result of the grouping.
\<close>

theorem normalizer_policy:
  "eventData_of (EventsArray (e # es)) = Some e \<and>
   eventData_of (EventsArray []) = None \<and>
   eventData_of (EventsObject e) = Some e \<and>
   eventData_of EventsNull = None \<and>
   ((case eventData_of (events entry) of None \<Rightarrow> True | Some eventData \<Rightarrow> \<not> truthy (id_e eventData))
      \<longrightarrow> forEach_callback g entry = Inr g \<and>
          group_by_event (pre @ entry # post) = group_by_event (pre @ post))"
proof -
  have "forEach_callback g entry = Inr g \<and>
        group_by_event (pre @ entry # post) = group_by_event (pre @ post)"
    if "case eventData_of (events entry) of None \<Rightarrow> True | Some eventData \<Rightarrow> \<not> truthy (id_e eventData)"
  proof -
    have "\<not> survives entry"
      using that by (auto simp: survives_def split: option.splits)
    then show ?thesis
      by (simp add: callback_skips forEach_drops group_by_event_def)
  qed
  then show ?thesis
    by (simp add: eventData_of_def)
qed

theorem normalizer_policy_witness:
  "eventData_of (events (sample_row ''w5'' 4 (Some uuid_a) (EventsArray []))) = None \<and>
   forEach_callback [] (sample_row ''w5'' 4 (Some uuid_a) (EventsArray [])) = Inr [] \<and>
   group_by_event ([] @ sample_row ''w5'' 4 (Some uuid_a) (EventsArray []) # []) = Inr []"
proof -
  have none: "eventData_of (events (sample_row ''w5'' 4 (Some uuid_a) (EventsArray []))) = None"
    by (simp add: sample_row_def eventData_of_def)
  have empty: "group_by_event ([] @ []) = Inr []"
    by (simp add: group_by_event_def Object_values_def)
  show ?thesis
    using none empty
      normalizer_policy [where entry = "sample_row ''w5'' 4 (Some uuid_a) (EventsArray [])"
        and g = "[]" and pre = "[]" and post = "[]"]
    by simp
qed

section \<open>Properties of the admin verification\<close>

lemma split_on_nonempty [simp]: "split_on sep s \<noteq> []"
  by (induction s) (auto split: list.splits)

lemma split_on_plain: "sep \<notin> set w \<Longrightarrow> split_on sep w = [w]"
  by (induction w) auto

lemma split_on_append:
  "sep \<notin> set w \<Longrightarrow> split_on sep (w @ sep # rest) = w # split_on sep rest"
  by (induction w) auto

lemma split_on_join:
  "ws \<noteq> [] \<Longrightarrow> \<forall>w \<in> set ws. sep \<notin> set w \<Longrightarrow> split_on sep (join sep ws) = ws"
  by (induction sep ws rule: join.induct) (auto simp: split_on_plain split_on_append)

lemma join_split_on: "join sep (split_on sep s) = s"
proof (induction s)
  case Nil
  show ?case by simp
next
  case (Cons c cs)
  show ?case
  proof (cases "split_on sep cs")
    case Nil
    then show ?thesis using split_on_nonempty by blast
  next
    case (Cons w ws)
    then show ?thesis
      using Cons.IH by (cases ws) auto
  qed
qed

lemma split_on_no_sep: "w \<in> set (split_on sep s) \<Longrightarrow> sep \<notin> set w"
  by (induction s arbitrary: w) (auto split: if_splits list.splits)

lemma token_iff:
  "t \<in> set (split_on sep s) \<longleftrightarrow>
     (\<exists>ws. ws \<noteq> [] \<and> (\<forall>w \<in> set ws. sep \<notin> set w) \<and> s = join sep ws \<and> t \<in> set ws)"
proof
  assume "t \<in> set (split_on sep s)"
  then have "split_on sep s \<noteq> [] \<and> (\<forall>w \<in> set (split_on sep s). sep \<notin> set w) \<and>
             s = join sep (split_on sep s) \<and> t \<in> set (split_on sep s)"
    by (simp add: join_split_on split_on_no_sep)
  then show "\<exists>ws. ws \<noteq> [] \<and> (\<forall>w \<in> set ws. sep \<notin> set w) \<and> s = join sep ws \<and> t \<in> set ws"
    by blast
next
  assume "\<exists>ws. ws \<noteq> [] \<and> (\<forall>w \<in> set ws. sep \<notin> set w) \<and> s = join sep ws \<and> t \<in> set ws"
  then obtain ws where ws: "ws \<noteq> []" "\<forall>w \<in> set ws. sep \<notin> set w" "s = join sep ws" "t \<in> set ws"
    by blast
  have "split_on sep s = ws"
    unfolding ws(3) by (rule split_on_join [OF ws(1) ws(2)])
  then show "t \<in> set (split_on sep s)"
    using ws(4) by simp
qed

lemma authorized_iff:
  "(\<exists>address. verifyAdminRequest env = AuthorizedResult address) \<longleftrightarrow>
     (userError env = None \<and>
      (\<exists>u address adminRecord rs.
         user env = Some u \<and> email_u u = Some address \<and> address \<noteq> [] \<and>
         roles_single env address = Some adminRecord \<and> roles adminRecord = Some rs \<and>
         ''admin'' \<in> set (split_on CHR '','' rs)))"
  by (auto simp: verifyAdminRequest_def user_email_def split: option.splits)

text \<open>
  C9. The caller is authorized exactly when \<^verbatim>\<open>getUser\<close> reports no error and a user with a
  non-empty email, the roles query returns a record for that email, and the record's roles
  string is a comma-separated list of pieces one of which is exactly \<^verbatim>\<open>admin\<close>. The roles
  string \<^verbatim>\<open>administrator\<close> does not authorize.
\<close>

theorem admin_needs_exact_token:
  "((\<exists>address. verifyAdminRequest env = AuthorizedResult address) \<longleftrightarrow>
      (userError env = None \<and>
       (\<exists>u address adminRecord rs ws.
          user env = Some u \<and> email_u u = Some address \<and> address \<noteq> [] \<and>
          roles_single env address = Some adminRecord \<and> roles adminRecord = Some rs \<and>
          ws \<noteq> [] \<and> (\<forall>w \<in> set ws. CHR '','' \<notin> set w) \<and> rs = join CHR '','' ws \<and>
          ''admin'' \<in> set ws))) \<and>
   ((\<exists>u address adminRecord.
        user env = Some u \<and> email_u u = Some address \<and>
        roles_single env address = Some adminRecord \<and>
        roles adminRecord = Some ''administrator'')
      \<longrightarrow> verifyAdminRequest env \<noteq> AuthorizedResult a)"
proof -
  have "split_on CHR '','' ''administrator'' = [''administrator'']"
    by simp
  then have second: "(\<exists>u address adminRecord.
        user env = Some u \<and> email_u u = Some address \<and>
        roles_single env address = Some adminRecord \<and>
        roles adminRecord = Some ''administrator'')
      \<longrightarrow> verifyAdminRequest env \<noteq> AuthorizedResult a"
    by (auto simp: verifyAdminRequest_def user_email_def split: option.splits)
  have first: "(\<exists>address. verifyAdminRequest env = AuthorizedResult address) \<longleftrightarrow>
      (userError env = None \<and>
       (\<exists>u address adminRecord rs ws.
          user env = Some u \<and> email_u u = Some address \<and> address \<noteq> [] \<and>
          roles_single env address = Some adminRecord \<and> roles adminRecord = Some rs \<and>
          ws \<noteq> [] \<and> (\<forall>w \<in> set ws. CHR '','' \<notin> set w) \<and> rs = join CHR '','' ws \<and>
          ''admin'' \<in> set ws))"
    unfolding authorized_iff token_iff by blast
  from first second show ?thesis by blast
qed

theorem admin_needs_exact_token_witness:
  "verifyAdminRequest admin_env = AuthorizedResult ''chair@stanford.edu'' \<and>
   roles_single member_env ''student@stanford.edu'' = Some \<lparr>roles = Some ''administrator''\<rparr> \<and>
   verifyAdminRequest member_env \<noteq> AuthorizedResult ''student@stanford.edu''"
proof -
  have found: "\<exists>u address adminRecord.
        user member_env = Some u \<and> email_u u = Some address \<and>
        roles_single member_env address = Some adminRecord \<and>
        roles adminRecord = Some ''administrator''"
    by (simp add: member_env_def)
  have "verifyAdminRequest member_env \<noteq> AuthorizedResult ''student@stanford.edu''"
    using admin_needs_exact_token [of member_env "''student@stanford.edu''"] found by blast
  moreover have "verifyAdminRequest admin_env = AuthorizedResult ''chair@stanford.edu''"
    by (simp add: admin_env_def verifyAdminRequest_def user_email_def)
  moreover have "roles_single member_env ''student@stanford.edu'' = Some \<lparr>roles = Some ''administrator''\<rparr>"
    by (simp add: member_env_def)
  ultimately show ?thesis by blast
qed

section \<open>The handlers on denial\<close>

lemma verify_not_logged_in:
  "\<not> logged_in env \<Longrightarrow> verifyAdminRequest env = UnauthorizedResult ''Not authenticated''"
  by (simp add: verifyAdminRequest_def logged_in_def)

lemma verify_logged_in:
  "logged_in env \<Longrightarrow>
     verifyAdminRequest env = UnauthorizedResult ''Not authorized'' \<or>
     (\<exists>address. verifyAdminRequest env = AuthorizedResult address)"
  by (cases "user_email env") (simp_all add: verifyAdminRequest_def logged_in_def split: option.splits)

text \<open>
  C5 (amended). An unauthorized request to the waitlist route gets HTTP 401 with a body that
  holds only the \<^verbatim>\<open>error\<close> field; the message is \<^verbatim>\<open>Not authenticated\<close> for a caller who is
  not logged in and \<^verbatim>\<open>Not authorized\<close> for one who is logged in and is not an admin.
\<close>

theorem unauthorized_is_401:
  assumes "verifyAdminRequest env = UnauthorizedResult e"
  shows "GET isValidUUID env db eventId = \<lparr>status = 401, body = ErrorBody e\<rparr> \<and>
         e = (if logged_in env then ''Not authorized'' else ''Not authenticated'')"
proof -
  have "GET isValidUUID env db eventId = \<lparr>status = 401, body = ErrorBody e\<rparr>"
    using assms by (simp add: GET_def)
  moreover have "e = (if logged_in env then ''Not authorized'' else ''Not authenticated'')"
  proof (cases "logged_in env")
    case True
    then show ?thesis
      using assms verify_logged_in [OF True] by auto
  next
    case False
    then show ?thesis
      using assms verify_not_logged_in [OF False] by simp
  qed
  ultimately show ?thesis by simp
qed

theorem unauthorized_is_401_witness:
  "verifyAdminRequest member_env = UnauthorizedResult ''Not authorized'' \<and>
   GET sample_isValidUUID member_env sample_db None
     = \<lparr>status = 401, body = ErrorBody ''Not authorized''\<rparr>"
proof -
  have denied: "verifyAdminRequest member_env = UnauthorizedResult ''Not authorized''"
    by (simp add: member_env_def verifyAdminRequest_def user_email_def)
  show ?thesis
    using denied unauthorized_is_401 [OF denied, of sample_isValidUUID sample_db None] by simp
qed

text \<open>
  C5 as stated fails: the two kinds of unauthorized caller get different messages.
\<close>

theorem unauthorized_is_401_counterexample:
  "logged_in member_env \<and> \<not> logged_in anonymous_env \<and>
   body (GET sample_isValidUUID anonymous_env sample_db None) = ErrorBody ''Not authenticated'' \<and>
   body (GET sample_isValidUUID member_env sample_db None) = ErrorBody ''Not authorized'' \<and>
   GET sample_isValidUUID anonymous_env sample_db None
     \<noteq> GET sample_isValidUUID member_env sample_db None"
  by (simp add: GET_def verifyAdminRequest_def user_email_def logged_in_def member_env_def
      anonymous_env_def)

text \<open>
  C6 (amended). Both callers ask \<^verbatim>\<open>verifyAdminRequest\<close> first and return at once on denial,
  whatever the database holds: the page loader returns the empty grouped list and raises
  nothing; the route handler answers HTTP 401 with the error of the verification.
\<close>

theorem denial_short_circuits:
  assumes "verifyAdminRequest env = UnauthorizedResult e"
  shows "getInitialWaitlist env db = \<lparr>initialWaitlist = [], isGrouped = True\<rparr> \<and>
         GET isValidUUID env db eventId = \<lparr>status = 401, body = ErrorBody e\<rparr>"
  using assms by (simp add: getInitialWaitlist_def GET_def)

theorem denial_short_circuits_witness:
  "verifyAdminRequest anonymous_env = UnauthorizedResult ''Not authenticated'' \<and>
   getInitialWaitlist anonymous_env sample_db = \<lparr>initialWaitlist = [], isGrouped = True\<rparr> \<and>
   GET sample_isValidUUID anonymous_env sample_db (Some uuid_a)
     = \<lparr>status = 401, body = ErrorBody ''Not authenticated''\<rparr>"
proof -
  have denied: "verifyAdminRequest anonymous_env = UnauthorizedResult ''Not authenticated''"
    by (simp add: anonymous_env_def verifyAdminRequest_def)
  show ?thesis
    using denied denial_short_circuits [OF denied, of sample_db sample_isValidUUID "Some uuid_a"]
    by simp
qed

text \<open>
  C6 as stated fails: on denial the route handler returns an error response, not an empty
  result.
\<close>

theorem denial_short_circuits_counterexample:
  "verifyAdminRequest anonymous_env = UnauthorizedResult ''Not authenticated'' \<and>
   GET sample_isValidUUID anonymous_env sample_db None
     = \<lparr>status = 401, body = ErrorBody ''Not authenticated''\<rparr> \<and>
   GET sample_isValidUUID anonymous_env sample_db None
     \<noteq> \<lparr>status = 200, body = LeaderboardBody []\<rparr>"
  by (simp add: GET_def verifyAdminRequest_def anonymous_env_def)

section \<open>Properties of the client component\<close>

lemma displays_settle: "displays (fetchWaitlist_settle outcome s) outcome"
  by (cases outcome) (simp_all add: displays_def fetchWaitlist_settle_def)

lemma settle_keeps [simp]:
  "selectedEventId (fetchWaitlist_settle outcome s) = selectedEventId s"
  "in_flight (fetchWaitlist_settle outcome s) = in_flight s"
  by (cases outcome; simp add: fetchWaitlist_settle_def)+

lemma settled_mount: "settled_for_selection api (mount w g i)"
  by (simp add: settled_for_selection_def mount_def fetchWaitlist_start_def)

lemma settled_step:
  assumes "settled_for_selection api s" and "case ev of Settle n \<Rightarrow> n = 0 | _ \<Rightarrow> True"
  shows "settled_for_selection api (step api s ev)"
proof (cases ev)
  case (SelectEvent v)
  then show ?thesis
    using assms(1) by (simp add: step_def settled_for_selection_def fetchWaitlist_start_def)
next
  case Refresh
  then show ?thesis
    by (simp add: step_def settled_for_selection_def fetchWaitlist_start_def)
next
  case (Settle n)
  then have n: "n = 0" using assms(2) by simp
  show ?thesis
  proof (cases "in_flight s")
    case Nil
    then show ?thesis
      using assms(1) Settle by (simp add: step_def)
  next
    case (Cons f rest)
    then have st: "step api s ev = fetchWaitlist_settle (api f) (s\<lparr>in_flight := rest\<rparr>)"
      using Settle n by (simp add: step_def)
    show ?thesis
    proof (cases rest)
      case Nil
      then have "f = selectedEventId s"
        using assms(1) Cons by (simp add: settled_for_selection_def)
      then show ?thesis
        using Nil displays_settle [of "api f" "s\<lparr>in_flight := rest\<rparr>"]
        by (simp add: st settled_for_selection_def)
    next
      case (Cons f' rest')
      then show ?thesis
        using assms(1) \<open>in_flight s = f # rest\<close>
        by (simp add: st settled_for_selection_def)
    qed
  qed
qed

lemma settled_run:
  "settled_for_selection api s \<Longrightarrow> in_request_order evs \<Longrightarrow> settled_for_selection api (run api s evs)"
  unfolding run_def in_request_order_def
  by (induction evs arbitrary: s) (simp_all add: settled_step)




section \<open>Properties of the sales bucketing\<close>

lemma count_sale_sum: "sum_list (map snd (count_sale t buckets)) = sum_list (map snd buckets) + 1"
  unfolding count_sale_def by (induction buckets) auto

lemma fold_count_sale_sum:
  "sum_list (map snd (fold count_sale ts buckets)) = sum_list (map snd buckets) + length ts"
  by (induction ts arbitrary: buckets) (simp_all add: count_sale_sum)

lemma zero_buckets_sum: "sum_list (map snd (map (\<lambda>h. (f h, 0 :: nat)) hs)) = 0"
  by (induction hs) simp_all

lemma empty_buckets_Nil: "empty_buckets dense [] = []"
  unfolding empty_buckets_def by (simp only: list.case if_cancel)

lemma empty_buckets_sparse: "empty_buckets False ts = []"
  unfolding empty_buckets_def by (simp only: if_False)

lemma empty_buckets_dense:
  "empty_buckets True (t # rest) =
     map (\<lambda>h. (h * hour_ms, 0)) [t div hour_ms .. last (t # rest) div hour_ms]"
  unfolding empty_buckets_def by (simp only: if_True list.case)

lemma empty_buckets_sum: "sum_list (map snd (empty_buckets dense ts)) = 0"
proof (cases dense)
  case False
  then show ?thesis
    by (simp only: empty_buckets_sparse list.map sum_list.Nil)
next
  case True
  show ?thesis
  proof (cases ts)
    case Nil
    show ?thesis
      unfolding Nil empty_buckets_Nil by (simp only: list.map sum_list.Nil)
  next
    case (Cons t rest)
    have d: "dense = True" using True by simp
    show ?thesis
      unfolding Cons d empty_buckets_dense by (rule zero_buckets_sum)
  qed
qed

lemma count_sale_nonempty: "count_sale t buckets \<noteq> []"
  by (simp add: count_sale_def)

lemma fold_count_sale_nonempty: "buckets \<noteq> [] \<Longrightarrow> fold count_sale ts buckets \<noteq> []"
  by (induction ts arbitrary: buckets) (simp_all add: count_sale_nonempty)

lemma running_sum_lower: "b \<in> set (running_sum acc buckets) \<Longrightarrow> acc \<le> cumulative b"
  by (induction acc buckets rule: running_sum.induct) auto

lemma running_sum_sorted: "sorted (map cumulative (running_sum acc buckets))"
  by (induction acc buckets rule: running_sum.induct) (auto dest: running_sum_lower)

lemma running_sum_empty: "running_sum acc buckets = [] \<longleftrightarrow> buckets = []"
  by (cases buckets) auto

lemma running_sum_last:
  "buckets \<noteq> [] \<Longrightarrow>
     cumulative (last (running_sum acc buckets)) = acc + sum_list (map snd buckets)"
  by (induction acc buckets rule: running_sum.induct) (auto simp: running_sum_empty)

lemma running_sum_times: "map time_b (running_sum acc buckets) = map fst buckets"
  by (induction acc buckets rule: running_sum.induct) auto

lemma truncate_hour_mono: "s \<le> t \<Longrightarrow> truncate_hour s \<le> truncate_hour t"
  by (simp add: truncate_hour_def hour_ms_def zdiv_mono1)

lemma count_sale_keys:
  "map fst (count_sale t buckets) =
     (if truncate_hour t \<in> set (map fst buckets) then map fst buckets
      else map fst buckets @ [truncate_hour t])"
  by (simp only: count_sale_def update_keys)

text \<open>
  While the sorted timestamps are folded in, the bucket keys stay in ascending order: the
  key of a sale is either present already or not below any key present.
\<close>

lemma fold_count_sale_chronological:
  assumes "sorted ts" and "sorted (map fst buckets)"
    and "\<forall>t \<in> set ts. truncate_hour t \<in> set (map fst buckets) \<or>
                       (\<forall>k \<in> set (map fst buckets). k \<le> truncate_hour t)"
  shows "sorted (map fst (fold count_sale ts buckets))"
  using assms
proof (induction ts arbitrary: buckets)
  case Nil
  then show ?case by simp
next
  case (Cons t ts)
  let ?next = "count_sale t buckets"
  have keys: "set (map fst ?next) = insert (truncate_hour t) (set (map fst buckets))"
    by (auto simp only: count_sale_keys split: if_splits) auto
  have "sorted (map fst ?next)"
  proof (cases "truncate_hour t \<in> set (map fst buckets)")
    case True
    then show ?thesis
      using Cons.prems(2) by (simp only: count_sale_keys if_True)
  next
    case False
    then have "\<forall>k \<in> set (map fst buckets). k \<le> truncate_hour t"
      using Cons.prems(3) by simp
    then show ?thesis
      using Cons.prems(2) False by (simp only: count_sale_keys if_False) (simp add: sorted_append)
  qed
  moreover have "\<forall>t' \<in> set ts. truncate_hour t' \<in> set (map fst ?next) \<or>
                       (\<forall>k \<in> set (map fst ?next). k \<le> truncate_hour t')"
  proof
    fix t' assume t': "t' \<in> set ts"
    then have "t \<le> t'"
      using Cons.prems(1) by simp
    then have "truncate_hour t \<le> truncate_hour t'"
      by (rule truncate_hour_mono)
    moreover have "truncate_hour t' \<in> set (map fst buckets) \<or>
                   (\<forall>k \<in> set (map fst buckets). k \<le> truncate_hour t')"
      using Cons.prems(3) t' by simp
    ultimately show "truncate_hour t' \<in> set (map fst ?next) \<or>
                       (\<forall>k \<in> set (map fst ?next). k \<le> truncate_hour t')"
      unfolding keys by blast
  qed
  moreover have "sorted ts"
    using Cons.prems(1) by simp
  ultimately have "sorted (map fst (fold count_sale ts ?next))"
    by (rule Cons.IH [rotated])
  then show ?case by simp
qed

lemma sorted_le_last: "sorted xs \<Longrightarrow> x \<in> set xs \<Longrightarrow> x \<le> last (xs :: int list)"
  by (induction xs) auto

lemma empty_buckets_chronological:
  assumes "sorted ts"
  shows "sorted (map fst (empty_buckets dense ts)) \<and>
         (\<forall>t \<in> set ts. truncate_hour t \<in> set (map fst (empty_buckets dense ts)) \<or>
                       (\<forall>k \<in> set (map fst (empty_buckets dense ts)). k \<le> truncate_hour t))"
proof (cases dense)
  case False
  then show ?thesis
    by (simp add: empty_buckets_sparse)
next
  case True
  show ?thesis
  proof (cases ts)
    case Nil
    then show ?thesis
      by (simp add: empty_buckets_Nil)
  next
    case (Cons t0 rest)
    let ?lo = "t0 div hour_ms" and ?hi = "last ts div hour_ms"
    have d: "dense = True" using True by simp
    have "empty_buckets dense ts = map (\<lambda>h. (h * hour_ms, 0)) [?lo .. ?hi]"
      unfolding d Cons by (rule empty_buckets_dense)
    then have keys: "map fst (empty_buckets dense ts) = map (\<lambda>h. h * hour_ms) [?lo .. ?hi]"
      by (simp add: comp_def)
    have "sorted (map (\<lambda>h. h * hour_ms) [?lo .. ?hi])"
      by (rule sorted_wrt_map_mono [OF sorted_upto]) (simp add: hour_ms_def)
    moreover have "truncate_hour t \<in> set (map (\<lambda>h. h * hour_ms) [?lo .. ?hi])" if "t \<in> set ts" for t
    proof -
      have "t0 \<le> t"
        using assms that Cons by auto
      moreover have "t \<le> last ts"
        using assms that by (rule sorted_le_last)
      ultimately have "?lo \<le> t div hour_ms" "t div hour_ms \<le> ?hi"
        by (simp_all add: hour_ms_def zdiv_mono1)
      then show ?thesis
        by (auto simp: truncate_hour_def)
    qed
    ultimately show ?thesis
      unfolding keys by blast
  qed
qed

lemma sales_buckets_scenario:
  "sales_buckets dense [36300000, 38400000, 39720000] =
     \<lparr>data_s = [\<lparr>time_b = 36000000, count_b = 2, cumulative = 2\<rparr>,
                \<lparr>time_b = 39600000, count_b = 1, cumulative = 3\<rparr>],
      totalTickets = 3\<rparr>"
proof -
  have range: "[10 .. 11 :: int] = [10, 11]"
    by (simp add: upto_rec1)
  show ?thesis
    by (cases dense)
       (simp_all add: sales_buckets_def empty_buckets_def count_sale_def truncate_hour_def
          hour_ms_def range)
qed

text \<open>
  C7. The buckets of the sales bucketing engine come in chronological order and their
  cumulative values never decrease along the sequence; when there is a sale, the last
  bucket's cumulative value is the number of sales; \<open>totalTickets\<close> is the number of sales;
  no sale gives no bucket and \<open>totalTickets = 0\<close>. This holds for the sparse and for the
  dense bucket sequence.
\<close>

theorem cumulative_monotone_and_total:
  "sorted (map time_b (data_s (sales_buckets dense timestamps))) \<and>
   sorted (map cumulative (data_s (sales_buckets dense timestamps))) \<and>
   (timestamps \<noteq> [] \<longrightarrow>
      data_s (sales_buckets dense timestamps) \<noteq> [] \<and>
      cumulative (last (data_s (sales_buckets dense timestamps))) = length timestamps) \<and>
   totalTickets (sales_buckets dense timestamps) = length timestamps \<and>
   sales_buckets dense [] = \<lparr>data_s = [], totalTickets = 0\<rparr>"
proof -
  define folded where
    "folded = fold count_sale (sort timestamps) (empty_buckets dense (sort timestamps))"
  have data: "data_s (sales_buckets dense timestamps) = running_sum 0 folded"
    by (simp add: sales_buckets_def folded_def Let_def)
  have total: "sum_list (map snd folded) = length timestamps"
    by (simp add: folded_def fold_count_sale_sum empty_buckets_sum)
  have nonempty: "folded \<noteq> []" if "timestamps \<noteq> []"
  proof -
    from that have "length (sort timestamps) \<noteq> 0"
      by simp
    then obtain t rest where "sort timestamps = t # rest"
      by (cases "sort timestamps") auto
    then show ?thesis
      by (simp add: folded_def fold_count_sale_nonempty count_sale_nonempty)
  qed
  have "sorted (map fst folded)"
    unfolding folded_def
    using empty_buckets_chronological [of "sort timestamps" dense]
    by (intro fold_count_sale_chronological) simp_all
  then have chrono: "sorted (map time_b (data_s (sales_buckets dense timestamps)))"
    by (simp add: data running_sum_times)
  have mono: "sorted (map cumulative (data_s (sales_buckets dense timestamps)))"
    unfolding data by (rule running_sum_sorted)
  have final: "data_s (sales_buckets dense timestamps) \<noteq> [] \<and>
      cumulative (last (data_s (sales_buckets dense timestamps))) = length timestamps"
    if "timestamps \<noteq> []"
    using nonempty [OF that] total by (simp add: data running_sum_empty running_sum_last)
  have tickets: "totalTickets (sales_buckets dense timestamps) = length timestamps"
  proof (cases "timestamps = []")
    case True
    then show ?thesis
      by (simp add: sales_buckets_def empty_buckets_Nil)
  next
    case False
    have "totalTickets (sales_buckets dense timestamps)
          = (case running_sum 0 folded of [] \<Rightarrow> 0 | _ \<Rightarrow> cumulative (last (running_sum 0 folded)))"
      unfolding sales_buckets_def folded_def Let_def by simp
    also have "\<dots> = cumulative (last (running_sum 0 folded))"
      using nonempty [OF False] by (cases "running_sum 0 folded") (simp_all add: running_sum_empty)
    also have "\<dots> = length timestamps"
      using nonempty [OF False] total by (simp add: running_sum_last)
    finally show ?thesis .
  qed
  have none: "sales_buckets dense [] = \<lparr>data_s = [], totalTickets = 0\<rparr>"
    by (simp add: sales_buckets_def empty_buckets_Nil)
  from chrono mono final tickets none show ?thesis by blast
qed

theorem cumulative_monotone_and_total_witness:
  "[36300000, 38400000, 39720000 :: int] \<noteq> [] \<and>
   data_s (sales_buckets True [36300000, 38400000, 39720000]) \<noteq> [] \<and>
   cumulative (last (data_s (sales_buckets True [36300000, 38400000, 39720000]))) = 3 \<and>
   totalTickets (sales_buckets True [36300000, 38400000, 39720000]) = 3"
  using cumulative_monotone_and_total [of True "[36300000, 38400000, 39720000]"]
  by simp

end
